theory Spec2Isabelle
  imports Main "HOL-Library.Log_Nat"
begin

section \<open>The live simulation cockpit (SimulationPage.jsx, DecisionModal.jsx)\<close>

subsection \<open>Events and JavaScript truthiness\<close>

text \<open>
  A log entry as the cockpit reads it. Fields the page only prints are left out. The
  fields \<open>severity\<close>, \<open>threat_label\<close> and \<open>is_anomaly\<close> may be missing from the JSON
  object, hence the options.
\<close>

record log =
  log_id :: nat
  event_type :: string
  raw_payload :: string
  source_ip :: string
  dest_port :: nat
  protocol :: string
  severity :: "string option"
  threat_label :: "string option"
  is_anomaly :: "bool option"

text \<open>\<open>x || d\<close> on an optional string: a missing value and the empty string are falsy.\<close>

fun or_default :: "string option \<Rightarrow> string \<Rightarrow> string" where
  "or_default None d = d"
| "or_default (Some s) d = (if s = [] then d else s)"

text \<open>\<open>l.is_anomaly\<close> used as a condition.\<close>

fun flag :: "bool option \<Rightarrow> bool" where
  "flag None = False"
| "flag (Some b) = b"

subsection \<open>Stats derived from logs\<close>

record stats =
  total_count :: nat
  anomalies :: nat
  critical :: nat
  high :: nat

definition stats_of :: "log list \<Rightarrow> stats" where
  "stats_of ls =
     \<lparr> total_count = length ls,
       anomalies = length (filter (\<lambda>l. flag (is_anomaly l)) ls),
       critical = length (filter (\<lambda>l. severity l = Some ''critical'') ls),
       high = length (filter (\<lambda>l. severity l = Some ''high'') ls) \<rparr>"

text \<open>
  \<open>Math.round\<close>: the nearest integer, a tie going up. The counts are lengths of arrays,
  whole numbers below \<open>2^32\<close>, so the products and their sum are whole numbers that a
  double holds exactly.
\<close>

definition Math_round :: "rat \<Rightarrow> int" where
  "Math_round x = \<lfloor>x + 1 / 2\<rfloor>"

definition riskScore :: "stats \<Rightarrow> int" where
  "riskScore st =
     min 100 (Math_round (of_nat (critical st * 10) + of_nat (high st * 5)
                          + of_nat (anomalies st * 2)))"

text \<open>The formula in the specification's words.\<close>

definition clamp :: "int \<Rightarrow> int \<Rightarrow> int \<Rightarrow> int" where
  "clamp lo hi x = max lo (min hi x)"

definition two_event_store :: "log list" where
  "two_event_store =
     [ \<lparr> log_id = 1, event_type = ''login'', raw_payload = '''', source_ip = ''10.0.0.1'',
         dest_port = 22, protocol = ''tcp'', severity = Some ''critical'',
         threat_label = None, is_anomaly = Some True \<rparr>,
       \<lparr> log_id = 2, event_type = ''login'', raw_payload = '''', source_ip = ''10.0.0.2'',
         dest_port = 22, protocol = ''tcp'', severity = Some ''high'',
         threat_label = None, is_anomaly = Some False \<rparr> ]"

subsection \<open>Threat distribution\<close>

text \<open>
  The accumulator of the \<open>reduce\<close> is a plain object used as a dictionary from labels to
  counts: here the list of its own properties in order of creation.
\<close>

type_synonym counts = "(string \<times> nat) list"

text \<open>\<open>acc[k] = (acc[k] || 0) + 1\<close> for a key that is missing or holds a number.\<close>

fun bump :: "counts \<Rightarrow> string \<Rightarrow> counts" where
  "bump [] k = [(k, 1)]"
| "bump ((k', c) # acc) k = (if k' = k then (k', c + 1) # acc else (k', c) # bump acc k)"

text \<open>
  The accumulator is created by \<open>{}\<close> and inherits the members of \<open>Object.prototype\<close>.
  For a label that names one of its methods, \<open>acc[label]\<close> is a function before the first
  assignment, \<open>(acc[label] || 0) + 1\<close> is a string, and the entries cannot be ordered by
  \<open>b.count - a.count\<close>. For the label \<open>__proto__\<close> the assignment of a string is ignored
  by the inherited setter, so such events are not counted at all.
\<close>

definition Object_prototype_methods :: "string list" where
  "Object_prototype_methods =
     [''constructor'', ''__defineGetter__'', ''__defineSetter__'', ''hasOwnProperty'',
      ''__lookupGetter__'', ''__lookupSetter__'', ''isPrototypeOf'', ''propertyIsEnumerable'',
      ''toString'', ''valueOf'', ''toLocaleString'']"

text \<open>The callback of the \<open>reduce\<close>.\<close>

definition tally :: "counts \<Rightarrow> log \<Rightarrow> counts" where
  "tally acc l =
     (case threat_label l of
        None \<Rightarrow> acc
      | Some t \<Rightarrow> if t \<noteq> [] \<and> t \<noteq> ''benign''
                  then (if t = ''__proto__'' then acc else bump acc t)
                  else acc)"

text \<open>
  \<open>Object.entries\<close> lists the own properties in the order of the language: the keys that
  are array indices (canonical decimal numerals below \<open>2^32 - 1\<close>) first, in ascending
  numeric order, then the other keys in order of creation.
\<close>

definition decimal :: "string \<Rightarrow> int" where
  "decimal k = foldl (\<lambda>n c. 10 * n + (of_char c - 48)) 0 k"

definition is_array_index :: "string \<Rightarrow> bool" where
  "is_array_index k =
     (k \<noteq> [] \<and> list_all (\<lambda>c. c \<in> set ''0123456789'') k
      \<and> (k = ''0'' \<or> hd k \<noteq> CHR ''0'') \<and> decimal k < 4294967295)"

definition Object_entries :: "counts \<Rightarrow> (string \<times> nat) list" where
  "Object_entries obj =
     sort_key (\<lambda>p. decimal (fst p)) (filter (\<lambda>p. is_array_index (fst p)) obj)
     @ filter (\<lambda>p. \<not> is_array_index (fst p)) obj"

text \<open>One bar of the chart: \<open>{ name, count, color }\<close>.\<close>

record bar =
  name :: string
  count :: nat
  color :: string

definition THREAT_COLORS :: "(string \<times> string) list" where
  "THREAT_COLORS =
     [(''brute_force'', ''#f97316''), (''sql_injection'', ''#eab308''),
      (''ransomware'', ''#ef4444''), (''ddos'', ''#ef4444''),
      (''lateral_movement'', ''#a855f7''), (''data_exfil'', ''#3b82f6''),
      (''phishing'', ''#22c55e''), (''zero_day'', ''#ff0040''), (''benign'', ''#6b7280'')]"

text \<open>\<open>name.replace(/_/g, ' ')\<close>.\<close>

definition display_name :: "string \<Rightarrow> string" where
  "display_name k = map (\<lambda>c. if c = CHR ''_'' then CHR '' '' else c) k"

definition entry :: "string \<times> nat \<Rightarrow> bar" where
  "entry p =
     \<lparr> name = display_name (fst p),
       count = snd p,
       color = (case map_of THREAT_COLORS (fst p) of Some c \<Rightarrow> c | None \<Rightarrow> ''#6b7280'') \<rparr>"

text \<open>The labels that pass the test \<open>l.threat_label && l.threat_label !== 'benign'\<close>.\<close>

definition counted :: "log list \<Rightarrow> string list" where
  "counted ls =
     concat (map (\<lambda>l. case threat_label l of
                         None \<Rightarrow> []
                       | Some t \<Rightarrow> if t \<noteq> [] \<and> t \<noteq> ''benign'' then [t] else []) ls)"

text \<open>
  \<open>threatDist\<close>: the entries of the accumulator, mapped to bars, sorted by the stable
  \<open>sort\<close> with the comparator \<open>b.count - a.count\<close>, and cut to six. The result is \<open>None\<close>
  when a counted label names a method of \<open>Object.prototype\<close>: the counts are then not
  all numbers and the language leaves the order of the sort open.
\<close>

definition threatDist :: "log list \<Rightarrow> bar list option" where
  "threatDist ls =
     (if list_ex (\<lambda>t. t \<in> set Object_prototype_methods) (counted ls) then None
      else Some (take 6 (sort_key (\<lambda>e. - int (count e))
                          (map entry (Object_entries (foldl tally [] ls))))))"

subsection \<open>Page state, requests and notifications\<close>

text \<open>The automated triage result; its numeric scores are only printed.\<close>

record analysis =
  a_threat_label :: string
  a_is_anomaly :: bool
  recommendation :: string

text \<open>
  The state of a mounted \<open>DecisionModal\<close>: \<open>label\<close>, \<open>action\<close>, \<open>notes\<close> and its own
  \<open>elapsed\<close> counter.
\<close>

record modal =
  label :: string
  action :: string
  notes_text :: string
  modal_elapsed :: nat

text \<open>
  The \<open>useState\<close> cells of \<open>SimulationPage\<close> that the workflow reads or writes, the
  route parameter \<open>id\<close>, and the state of the modal while it is mounted (\<open>None\<close> when
  it is not).
\<close>

record page =
  sim_id :: string
  logs :: "log list"
  selectedLog :: "log option"
  analysis :: "analysis option"
  analysing :: bool
  showModal :: bool
  elapsed :: nat
  decisionsCount :: nat
  correctCount :: nat
  paused :: bool
  form :: "modal option"

record analyze_req =
  an_simulation_id :: string
  an_log_id :: nat
  an_event_type :: string
  an_raw_payload :: string
  an_source_ip :: string
  an_dest_port :: nat
  an_protocol :: string
  an_severity :: string

record submit_req =
  simulation_id :: string
  sub_log_id :: nat
  analyst_label :: string
  correct_label :: string
  time_taken_sec :: nat
  sub_notes :: string

datatype notice =
    Analysis_failed
  | Failed_to_submit
  | Correct_classification nat
  | Incorrect_actual "string option"

datatype level = Lv_error | Lv_success | Lv_warn

text \<open>What a handler sends out: a request to the backend or a toast.\<close>

datatype effect =
    Get_logs string nat
  | Post_analyze analyze_req
  | Post_submit submit_req
  | Toast level notice

subsection \<open>Handlers\<close>

text \<open>
  An \<open>async\<close> handler is split at its \<open>await\<close>: the part before it runs when the handler
  is called and issues the request, the part after it runs when the request settles
  (\<open>Some\<close> the response data, \<open>None\<close> a rejection). The state setters of the second part
  write the current state of the page, whatever happened in between.
\<close>

definition fetchLogs_start :: "page \<Rightarrow> page \<times> effect list" where
  "fetchLogs_start s = (if paused s then (s, []) else (s, [Get_logs (sim_id s) 200]))"

definition fetchLogs_settle :: "page \<Rightarrow> log list option \<Rightarrow> page \<times> effect list" where
  "fetchLogs_settle s r = (case r of Some d \<Rightarrow> (s\<lparr>logs := d\<rparr>, []) | None \<Rightarrow> (s, []))"

definition analyzeLog_start :: "page \<Rightarrow> log \<Rightarrow> page \<times> effect list" where
  "analyzeLog_start s l =
     (s\<lparr>selectedLog := Some l, analysis := None, analysing := True\<rparr>,
      [Post_analyze \<lparr> an_simulation_id = sim_id s, an_log_id = log_id l,
                      an_event_type = event_type l, an_raw_payload = raw_payload l,
                      an_source_ip = source_ip l, an_dest_port = dest_port l,
                      an_protocol = protocol l,
                      an_severity = or_default (severity l) ''medium'' \<rparr>])"

definition analyzeLog_settle :: "page \<Rightarrow> analysis option \<Rightarrow> page \<times> effect list" where
  "analyzeLog_settle s r =
     (case r of
        Some d \<Rightarrow> (s\<lparr>analysis := Some d, showModal := True, analysing := False\<rparr>, [])
      | None \<Rightarrow> (s\<lparr>analysing := False\<rparr>, [Toast Lv_error Analysis_failed]))"

definition submitDecision_start ::
  "page \<Rightarrow> string \<Rightarrow> string \<Rightarrow> string \<Rightarrow> nat \<Rightarrow> page \<times> effect list" where
  "submitDecision_start s lbl act nts timeTaken =
     (case selectedLog s of
        None \<Rightarrow> (s, [])
      | Some l \<Rightarrow>
          (s, [Post_submit \<lparr> simulation_id = sim_id s, sub_log_id = log_id l,
                             analyst_label = lbl,
                             correct_label = or_default (threat_label l) ''brute_force'',
                             time_taken_sec = timeTaken, sub_notes = nts \<rparr>]))"

text \<open>
  The second part of \<open>submitDecision\<close> reads \<open>timeTaken\<close> and \<open>selectedLog\<close> from the
  closure of the call (the request and the log it was made for) and \<open>data.correct\<close>
  from the response.
\<close>

definition submitDecision_settle ::
  "page \<Rightarrow> submit_req \<Rightarrow> log \<Rightarrow> bool option \<Rightarrow> page \<times> effect list" where
  "submitDecision_settle s req l r =
     (case r of
        Some correct \<Rightarrow>
          (s\<lparr>decisionsCount := decisionsCount s + 1,
             correctCount := (if correct then correctCount s + 1 else correctCount s),
             showModal := False, selectedLog := None\<rparr>,
           [if correct then Toast Lv_success (Correct_classification (time_taken_sec req))
            else Toast Lv_warn (Incorrect_actual (threat_label l))])
      | None \<Rightarrow> (s, [Toast Lv_error Failed_to_submit]))"

subsection \<open>Rendering and the step function\<close>

text \<open>The initial state of a \<open>DecisionModal\<close> mounted for a log.\<close>

definition mount :: "log \<Rightarrow> modal" where
  "mount l = \<lparr> label = or_default (threat_label l) ''brute_force'',
               action = ''investigate'', notes_text = [], modal_elapsed = 0 \<rparr>"

text \<open>
  \<open>{showModal && selectedLog && (<DecisionModal log={selectedLog} ... />)}\<close>: the modal
  is mounted when the condition becomes true, keeps its state while it stays true, and
  is unmounted (its state dropped) when it becomes false.
\<close>

definition render :: "page \<Rightarrow> page" where
  "render s =
     (case selectedLog s of
        None \<Rightarrow> s\<lparr>form := None\<rparr>
      | Some l \<Rightarrow>
          if showModal s
          then (case form s of None \<Rightarrow> s\<lparr>form := Some (mount l)\<rparr> | Some m \<Rightarrow> s)
          else s\<lparr>form := None\<rparr>)"

datatype event =
    Select log
  | Analyze_settled "analysis option"
  | Open_form
  | Close_form
  | Set_label string
  | Set_action string
  | Set_notes string
  | Modal_tick
  | Submit_click
  | Submit_settled submit_req log "bool option"
  | Poll_tick
  | Fetch_settled "log list option"
  | Clock_tick
  | Toggle_pause

text \<open>
  One callback. A control that is not rendered cannot be used: the sidebar button
  \<open>OPEN DECISION FORM\<close> exists when \<open>!analysing && selectedLog && analysis && !showModal\<close>,
  the controls and the timer of the modal exist while it is mounted. The feed is rendered
  in every state and \<open>analyzeLog\<close> tests nothing before it selects. Toggling the pause
  changes \<open>fetchLogs\<close>, so the effect that depends on it runs again: it restarts the
  intervals and calls \<open>fetchLogs()\<close> at once.
\<close>

fun handle :: "page \<Rightarrow> event \<Rightarrow> page \<times> effect list" where
  "handle s (Select l) = analyzeLog_start s l"
| "handle s (Analyze_settled r) = analyzeLog_settle s r"
| "handle s Open_form =
     (if \<not> analysing s \<and> selectedLog s \<noteq> None \<and> analysis s \<noteq> None \<and> \<not> showModal s
      then (s\<lparr>showModal := True\<rparr>, []) else (s, []))"
| "handle s Close_form =
     (case form s of None \<Rightarrow> (s, []) | Some m \<Rightarrow> (s\<lparr>showModal := False\<rparr>, []))"
| "handle s (Set_label v) =
     (case form s of None \<Rightarrow> (s, []) | Some m \<Rightarrow> (s\<lparr>form := Some (m\<lparr>label := v\<rparr>)\<rparr>, []))"
| "handle s (Set_action v) =
     (case form s of None \<Rightarrow> (s, []) | Some m \<Rightarrow> (s\<lparr>form := Some (m\<lparr>action := v\<rparr>)\<rparr>, []))"
| "handle s (Set_notes v) =
     (case form s of None \<Rightarrow> (s, []) | Some m \<Rightarrow> (s\<lparr>form := Some (m\<lparr>notes_text := v\<rparr>)\<rparr>, []))"
| "handle s Modal_tick =
     (case form s of
        None \<Rightarrow> (s, [])
      | Some m \<Rightarrow> (s\<lparr>form := Some (m\<lparr>modal_elapsed := modal_elapsed m + 1\<rparr>)\<rparr>, []))"
| "handle s Submit_click =
     (case form s of
        None \<Rightarrow> (s, [])
      | Some m \<Rightarrow> submitDecision_start s (label m) (action m) (notes_text m) (modal_elapsed m))"
| "handle s (Submit_settled req l r) = submitDecision_settle s req l r"
| "handle s Poll_tick = fetchLogs_start s"
| "handle s (Fetch_settled r) = fetchLogs_settle s r"
| "handle s Clock_tick = (s\<lparr>elapsed := elapsed s + 1\<rparr>, [])"
| "handle s Toggle_pause = fetchLogs_start (s\<lparr>paused := \<not> paused s\<rparr>)"

definition step :: "page \<Rightarrow> event \<Rightarrow> page \<times> effect list" where
  "step s ev = (case handle s ev of (s', out) \<Rightarrow> (render s', out))"

text \<open>A sequence of callbacks, with everything sent out on the way.\<close>

fun run :: "page \<Rightarrow> event list \<Rightarrow> page \<times> effect list" where
  "run s [] = (s, [])"
| "run s (ev # evs) =
     (case step s ev of (s', out) \<Rightarrow> (case run s' evs of (s'', out') \<Rightarrow> (s'', out @ out')))"

text \<open>The page as first rendered; mounting it calls \<open>fetchLogs()\<close> once.\<close>

definition init :: "string \<Rightarrow> page" where
  "init i = \<lparr> sim_id = i, logs = [], selectedLog = None, analysis = None, analysing = False,
              showModal = False, elapsed = 0, decisionsCount = 0, correctCount = 0,
              paused = False, form = None \<rparr>"

subsection \<open>Accuracy\<close>

text \<open>
  A JavaScript number is an IEEE 754 double, and \<open>/\<close> and \<open>*\<close> round their exact result to
  the nearest double, a tie going to the even significand. For a value in the normal range
  that is: scale it by a power of two into \<open>[2^52, 2^53)\<close>, round to the nearest integer
  (a tie to the even one), scale back. The quotients and products of the counters lie
  between \<open>2^-53\<close> and a few hundred, far from overflow and from the subnormal range; the
  counters themselves are whole numbers far below \<open>2^53\<close> and are held exactly.
\<close>

text \<open>\<open>\<lfloor>log\<^sub>2 x\<rfloor>\<close> for a positive rational.\<close>

definition exponent2 :: "rat \<Rightarrow> int" where
  "exponent2 x =
     (case quotient_of x of
        (a, b) \<Rightarrow> let k = bitlen a - bitlen b in if 2 powi k \<le> x then k else k - 1)"

definition round_even :: "rat \<Rightarrow> int" where
  "round_even y =
     (let f = \<lfloor>y\<rfloor>; r = y - of_int f
      in if r < 1 / 2 then f else if 1 / 2 < r then f + 1 else if even f then f else f + 1)"

definition double :: "rat \<Rightarrow> rat" where
  "double x =
     (if x = 0 then 0
      else let e = exponent2 \<bar>x\<bar> - 52
           in sgn x * of_int (round_even (\<bar>x\<bar> / 2 powi e)) * 2 powi e)"

text \<open>
  \<open>x.toFixed(0)\<close> writes the integer nearest to \<open>x\<close>, the larger one of two equally near;
  a negative \<open>x\<close> is written as the sign and the digits of \<open>-x\<close>. Here: the integer
  whose digits are written.
\<close>

definition toFixed0 :: "rat \<Rightarrow> int" where
  "toFixed0 x = (if x < 0 then - \<lfloor>- x + 1 / 2\<rfloor> else \<lfloor>x + 1 / 2\<rfloor>)"

text \<open>The value of \<open>accuracy\<close>: the digits of a whole number, or the dash.\<close>

datatype shown = Dash | Fixed int

definition accuracy :: "nat \<Rightarrow> nat \<Rightarrow> shown" where
  "accuracy correct made =
     (if made > 0 then Fixed (toFixed0 (double (double (of_nat correct / of_nat made) * 100)))
      else Dash)"

subsection \<open>Notions used in the statements\<close>

text \<open>A state as a render leaves it: the modal is mounted exactly when its condition holds.\<close>

definition rendered :: "page \<Rightarrow> bool" where
  "rendered s = (render s = s)"

text \<open>The decision form is mounted after every callback of the sequence.\<close>

fun stays_open :: "page \<Rightarrow> event list \<Rightarrow> bool" where
  "stays_open s [] = True"
| "stays_open s (ev # evs) =
     (form (fst (step s ev)) \<noteq> None \<and> stays_open (fst (step s ev)) evs)"

text \<open>
  Modelled from the spec: the handler of \<open>/submit-decision\<close> in the scoring service, which
  is not among the frontend sources. The specification has it answer \<open>correct\<close> when the
  submitted label equals the true label sent with it, as a case-sensitive exact match.
\<close>

definition scoring_service :: "submit_req \<Rightarrow> bool" where
  "scoring_service r = (analyst_label r = correct_label r)"


text \<open>The analyst's label and the correct label of the decisions sent out.\<close>

definition sent_labels :: "effect list \<Rightarrow> (string \<times> string) list" where
  "sent_labels out =
     concat (map (\<lambda>x. case x of Post_submit r \<Rightarrow> [(analyst_label r, correct_label r)] | _ \<Rightarrow> [])
               out)"


text \<open>The names an object made by \<open>{}\<close> inherits.\<close>

definition inherited_names :: "string list" where
  "inherited_names = ''__proto__'' # Object_prototype_methods"

text \<open>
  The threat distribution in the specification's words: the labels that are present and
  not benign, grouped and counted in first-seen order, sorted by descending count with a
  stable sort, the first six.
\<close>

fun first_seen :: "string list \<Rightarrow> string list" where
  "first_seen [] = []"
| "first_seen (x # xs) = x # filter (\<lambda>y. y \<noteq> x) (first_seen xs)"

definition group_count :: "string list \<Rightarrow> (string \<times> nat) list" where
  "group_count xs = map (\<lambda>k. (k, count_list xs k)) (first_seen xs)"

definition threatDistribution :: "log list \<Rightarrow> (string \<times> nat) list" where
  "threatDistribution ls = take 6 (sort_key (\<lambda>p. - int (snd p)) (group_count (counted ls)))"

subsection \<open>Concrete events and runs\<close>

definition event_X :: log where
  "event_X = \<lparr> log_id = 1, event_type = ''ssh_login_failed'',
                raw_payload = ''Failed password for root'', source_ip = ''203.0.113.7'',
                dest_port = 22, protocol = ''tcp'', severity = Some ''high'',
                threat_label = Some ''brute_force'', is_anomaly = Some True \<rparr>"

definition event_Y :: log where
  "event_Y = \<lparr> log_id = 2, event_type = ''mail_link_click'',
                raw_payload = ''GET /login.php'', source_ip = ''198.51.100.4'',
                dest_port = 443, protocol = ''tcp'', severity = Some ''medium'',
                threat_label = Some ''phishing'', is_anomaly = Some False \<rparr>"

definition analysis_X :: analysis where
  "analysis_X = \<lparr> a_threat_label = ''brute_force'', a_is_anomaly = True,
                   recommendation = ''Lock the account'' \<rparr>"

definition analysis_Y :: analysis where
  "analysis_Y = \<lparr> a_threat_label = ''phishing'', a_is_anomaly = False,
                   recommendation = ''Quarantine the message'' \<rparr>"

text \<open>The page with the decision form open on \<open>event_Y\<close>.\<close>

definition deciding_Y :: page where
  "deciding_Y = (init ''sim'')\<lparr> selectedLog := Some event_Y, analysis := Some analysis_Y,
                                 showModal := True, form := Some (mount event_Y) \<rparr>"


text \<open>The page while the analysis of \<open>event_Y\<close> is awaited.\<close>

definition selected_Y :: page where
  "selected_Y = (init ''sim'')\<lparr> selectedLog := Some event_Y, analysing := True \<rparr>"

text \<open>Two seconds in the open form, without a change of the classification.\<close>

definition untouched_run :: "event list" where
  "untouched_run = [Modal_tick, Set_action ''escalate'', Poll_tick, Modal_tick]"

text \<open>
  The form opens on \<open>event_Y\<close>; \<open>event_X\<close> is then selected from the feed, which stays in
  the page under the form (the \<open>ANALYZE\<close> buttons of the log table can be reached from the
  keyboard); the analyst submits without touching the classification.
\<close>

definition reselect_trace :: "event list" where
  "reselect_trace = [Select event_Y, Analyze_settled (Some analysis_Y), Select event_X, Submit_click]"

text \<open>An event without severity, threat label and anomaly flag.\<close>

definition event_U :: log where
  "event_U = \<lparr> log_id = 3, event_type = ''dns_query'', raw_payload = ''A example.org'',
                source_ip = ''192.0.2.9'', dest_port = 53, protocol = ''udp'',
                severity = None, threat_label = None, is_anomaly = None \<rparr>"

text \<open>The page three seconds into the decision on \<open>event_U\<close>.\<close>

definition deciding_U :: page where
  "deciding_U = (init ''sim'')\<lparr> selectedLog := Some event_U, analysis := Some analysis_X,
                                 showModal := True,
                                 form := Some \<lparr> label = ''brute_force'', action = ''dismiss'',
                                                notes_text = [], modal_elapsed = 3 \<rparr> \<rparr>"

text \<open>
  A store with every kind of entry the counts tell apart: a severity that is missing, one
  in another case, a flag that is missing, one that is false.
\<close>

definition mixed_counts_store :: "log list" where
  "mixed_counts_store =
     [ event_X, event_Y, event_U,
       event_U\<lparr> severity := Some ''critical'', is_anomaly := Some True \<rparr>,
       event_U\<lparr> severity := Some ''Critical'', is_anomaly := Some False \<rparr>,
       event_U\<lparr> severity := Some ''critical'' \<rparr> ]"

text \<open>Stores for the threat distribution.\<close>

definition labelled :: "nat \<Rightarrow> string \<Rightarrow> log" where
  "labelled i t = \<lparr> log_id = i, event_type = ''alert'', raw_payload = [], source_ip = ''10.0.0.1'',
                    dest_port = 80, protocol = ''tcp'', severity = Some ''low'',
                    threat_label = Some t, is_anomaly = None \<rparr>"

definition numeric_store :: "log list" where
  "numeric_store = [labelled 1 ''ddos'', labelled 2 ''7'']"

definition mixed_store :: "log list" where
  "mixed_store = [labelled 1 ''ddos'', labelled 2 ''brute_force'', labelled 3 ''benign'',
                  labelled 4 ''brute_force'', \<lparr> log_id = 5, event_type = ''alert'',
                    raw_payload = [], source_ip = ''10.0.0.1'', dest_port = 80, protocol = ''tcp'',
                    severity = Some ''low'', threat_label = None, is_anomaly = None \<rparr>]"

section \<open>Properties\<close>

lemma Math_round_of_int: "Math_round (of_int n) = n"
proof -
  have "\<lfloor>(of_int n :: rat) + 1 / 2\<rfloor> = n"
    by (rule floor_unique) simp_all
  then show ?thesis by (simp add: Math_round_def)
qed

lemma Math_round_counts:
  "Math_round (of_nat (c * 10) + of_nat (h * 5) + of_nat (a * 2))
     = int c * 10 + int h * 5 + int a * 2"
proof -
  have "(of_nat (c * 10) + of_nat (h * 5) + of_nat (a * 2) :: rat)
          = of_int (int c * 10 + int h * 5 + int a * 2)"
    by simp
  then show ?thesis by (simp only: Math_round_of_int)
qed

lemma length_filter_sum:
  "length (filter P ls) = (\<Sum>l\<leftarrow>ls. if P l then 1 else 0)"
  by (induction ls) simp_all

lemma flag_iff: "flag b \<longleftrightarrow> b = Some True"
  by (cases b) simp_all

text \<open>
  C2. For every snapshot the aggregator's counts are the numbers of events of the snapshot
  whose severity is \<open>critical\<close>, whose severity is \<open>high\<close> and whose anomaly flag is
  true, and the risk score is \<open>clamp 0 100 (round (critical * 10 + high * 5 +
  anomalies * 2))\<close> over those numbers. It lies in \<open>[0, 100]\<close> and does not depend on the
  total. The empty store scores 0, eleven critical events score 100, and the two-event
  store of the scenario scores 17.
\<close>

theorem riskScore_clamp:
  "total_count (stats_of ls) = length ls
   \<and> anomalies (stats_of ls) = (\<Sum>l\<leftarrow>ls. if is_anomaly l = Some True then 1 else 0)
   \<and> critical (stats_of ls) = (\<Sum>l\<leftarrow>ls. if severity l = Some ''critical'' then 1 else 0)
   \<and> high (stats_of ls) = (\<Sum>l\<leftarrow>ls. if severity l = Some ''high'' then 1 else 0)
   \<and> riskScore (stats_of ls)
       = max 0 (min 100
           (10 * int (\<Sum>l\<leftarrow>ls. if severity l = Some ''critical'' then 1 else 0)
            + 5 * int (\<Sum>l\<leftarrow>ls. if severity l = Some ''high'' then 1 else 0)
            + 2 * int (\<Sum>l\<leftarrow>ls. if is_anomaly l = Some True then 1 else 0)))
   \<and> riskScore (stats_of ls)
       = clamp 0 100 (Math_round (of_nat (critical (stats_of ls)) * 10
                                  + of_nat (high (stats_of ls)) * 5
                                  + of_nat (anomalies (stats_of ls)) * 2))
   \<and> riskScore st = clamp 0 100 (int (critical st) * 10 + int (high st) * 5 + int (anomalies st) * 2)
   \<and> 0 \<le> riskScore st \<and> riskScore st \<le> 100
   \<and> riskScore (st\<lparr>total_count := t\<rparr>) = riskScore st
   \<and> stats_of [] = \<lparr> total_count = 0, anomalies = 0, critical = 0, high = 0 \<rparr>
   \<and> riskScore (stats_of []) = 0
   \<and> stats_of mixed_counts_store = \<lparr> total_count = 6, anomalies = 2, critical = 2, high = 1 \<rparr>
   \<and> riskScore (stats_of mixed_counts_store) = 29
   \<and> riskScore (stats_of (replicate 11 (event_U\<lparr>severity := Some ''critical''\<rparr>))) = 100
   \<and> stats_of two_event_store = \<lparr> total_count = 2, anomalies = 1, critical = 1, high = 1 \<rparr>
   \<and> riskScore (stats_of two_event_store) = 17"
proof -
  have eq: "riskScore s = min 100 (int (critical s) * 10 + int (high s) * 5 + int (anomalies s) * 2)"
    for s
    unfolding riskScore_def by (simp only: Math_round_counts)
  have r: "(of_nat c * 10 + of_nat h * 5 + of_nat a * 2 :: rat)
             = of_nat (c * 10) + of_nat (h * 5) + of_nat (a * 2)" for c h a :: nat
    by simp
  have t: "total_count (stats_of ls) = length ls"
    by (simp add: stats_of_def)
  have an: "anomalies (stats_of ls) = (\<Sum>l\<leftarrow>ls. if is_anomaly l = Some True then 1 else 0)"
    by (simp add: stats_of_def length_filter_sum flag_iff)
  have cr: "critical (stats_of ls) = (\<Sum>l\<leftarrow>ls. if severity l = Some ''critical'' then 1 else 0)"
    by (simp add: stats_of_def length_filter_sum)
  have hi: "high (stats_of ls) = (\<Sum>l\<leftarrow>ls. if severity l = Some ''high'' then 1 else 0)"
    by (simp add: stats_of_def length_filter_sum)
  have m: "riskScore (stats_of ls)
       = max 0 (min 100
           (10 * int (\<Sum>l\<leftarrow>ls. if severity l = Some ''critical'' then 1 else 0)
            + 5 * int (\<Sum>l\<leftarrow>ls. if severity l = Some ''high'' then 1 else 0)
            + 2 * int (\<Sum>l\<leftarrow>ls. if is_anomaly l = Some True then 1 else 0)))"
    unfolding eq an [symmetric] cr [symmetric] hi [symmetric] by simp
  have a: "riskScore (stats_of ls)
     = clamp 0 100 (Math_round (of_nat (critical (stats_of ls)) * 10
                                + of_nat (high (stats_of ls)) * 5
                                + of_nat (anomalies (stats_of ls)) * 2))"
    unfolding r Math_round_counts eq clamp_def by simp
  have b: "riskScore st
     = clamp 0 100 (int (critical st) * 10 + int (high st) * 5 + int (anomalies st) * 2)"
    unfolding eq clamp_def by simp
  have c: "0 \<le> riskScore st" "riskScore st \<le> 100"
    unfolding eq by simp_all
  have d: "riskScore (st\<lparr>total_count := t\<rparr>) = riskScore st"
    by (simp add: riskScore_def)
  have z: "stats_of [] = \<lparr> total_count = 0, anomalies = 0, critical = 0, high = 0 \<rparr>"
    by (simp add: stats_of_def)
  have z': "riskScore (stats_of []) = 0"
    unfolding eq z by simp
  have x: "stats_of mixed_counts_store = \<lparr> total_count = 6, anomalies = 2, critical = 2, high = 1 \<rparr>"
    by (simp add: stats_of_def mixed_counts_store_def event_X_def event_Y_def event_U_def)
  have x': "riskScore (stats_of mixed_counts_store) = 29"
    unfolding eq x by simp
  have s: "riskScore (stats_of (replicate 11 (event_U\<lparr>severity := Some ''critical''\<rparr>))) = 100"
    unfolding eq by (simp add: stats_of_def)
  have e: "stats_of two_event_store = \<lparr> total_count = 2, anomalies = 1, critical = 1, high = 1 \<rparr>"
    by (simp add: stats_of_def two_event_store_def)
  have f: "riskScore (stats_of two_event_store) = 17"
    unfolding eq e by simp
  show ?thesis
    by (intro conjI) (rule t an cr hi m a b c d z z' x x' s e f)+
qed


subsection \<open>Rendering\<close>

lemmas handler_defs = step_def fetchLogs_start_def fetchLogs_settle_def analyzeLog_start_def
  analyzeLog_settle_def submitDecision_start_def submitDecision_settle_def

lemma render_fields:
  "sim_id (render s) = sim_id s" "logs (render s) = logs s"
  "selectedLog (render s) = selectedLog s" "analysis (render s) = analysis s"
  "analysing (render s) = analysing s" "showModal (render s) = showModal s"
  "elapsed (render s) = elapsed s" "decisionsCount (render s) = decisionsCount s"
  "correctCount (render s) = correctCount s" "paused (render s) = paused s"
  by (simp_all add: render_def split: option.splits)

lemma form_render:
  "form (render s) =
     (case selectedLog s of
        None \<Rightarrow> None
      | Some l \<Rightarrow> if showModal s
                  then (case form s of None \<Rightarrow> Some (mount l) | Some m \<Rightarrow> Some m)
                  else None)"
  by (simp add: render_def split: option.splits)




lemma rendered_init: "rendered (init i)"
  by (simp add: rendered_def render_def init_def)


lemma render_paused: "render (s\<lparr>paused := b\<rparr>) = (render s)\<lparr>paused := b\<rparr>"
  by (simp add: render_def split: option.splits)

lemma render_logs: "render (s\<lparr>logs := d\<rparr>) = (render s)\<lparr>logs := d\<rparr>"
  by (simp add: render_def split: option.splits)

lemma run_append:
  "run s (xs @ ys) =
     (case run s xs of (s', out) \<Rightarrow> (case run s' ys of (s'', out') \<Rightarrow> (s'', out @ out')))"
  by (induction xs arbitrary: s) (auto split: prod.splits)

subsection \<open>Polling\<close>

lemma step_Poll_tick:
  "rendered s \<Longrightarrow> step s Poll_tick = (s, if paused s then [] else [Get_logs (sim_id s) 200])"
  by (simp add: step_def fetchLogs_start_def rendered_def)

lemma step_Toggle_pause:
  "rendered s \<Longrightarrow> step s Toggle_pause
      = (s\<lparr>paused := \<not> paused s\<rparr>, if paused s then [Get_logs (sim_id s) 200] else [])"
  by (simp add: step_def fetchLogs_start_def rendered_def render_paused)

lemma step_Fetch_settled:
  "rendered s \<Longrightarrow>
     step s (Fetch_settled r) = (case r of Some d \<Rightarrow> s\<lparr>logs := d\<rparr> | None \<Rightarrow> s, [])"
  by (simp add: step_def fetchLogs_settle_def rendered_def render_logs split: option.splits)

lemma run_paused_ticks:
  "paused s \<Longrightarrow> rendered s \<Longrightarrow> run s (replicate n Poll_tick) = (s, [])"
  by (induction n) (simp_all add: step_Poll_tick)

lemma run_failed_polls:
  "\<not> paused s \<Longrightarrow> rendered s \<Longrightarrow>
     run s (concat (replicate n [Poll_tick, Fetch_settled None]))
       = (s, replicate n (Get_logs (sim_id s) 200))"
  by (induction n) (simp_all add: step_Poll_tick step_Fetch_settled)

text \<open>
  C6. While the feed is paused, any number of poll ticks leaves the page, and so the Event
  Store, as it was and sends no request (the ticks are dropped, none is queued). Resuming
  clears the pause, the tick after it sends one \<open>/get-logs\<close> request, and when a request
  resolves its data replaces the Event Store. (Resuming also fetches at once, which is the
  first of the two requests of the run. A request sent before the pause may still settle
  during it; that is the end of an earlier fetch, not a tick.)
\<close>

theorem paused_ticks_dropped:
  assumes "paused s" and "rendered s"
  shows "run s (replicate n Poll_tick) = (s, [])
       \<and> logs (fst (run s (replicate n Poll_tick))) = logs s
       \<and> fst (step s Toggle_pause) = s\<lparr>paused := False\<rparr>
       \<and> step (s\<lparr>paused := False\<rparr>) Poll_tick = (s\<lparr>paused := False\<rparr>, [Get_logs (sim_id s) 200])
       \<and> run s (replicate n Poll_tick @ [Toggle_pause, Poll_tick, Fetch_settled (Some d)])
           = (s\<lparr>paused := False, logs := d\<rparr>,
              [Get_logs (sim_id s) 200, Get_logs (sim_id s) 200])"
proof -
  have r: "rendered (s\<lparr>paused := False\<rparr>)"
    using assms(2) by (simp add: rendered_def render_paused)
  have r2: "rendered (s\<lparr>paused := False, logs := d\<rparr>)"
    using r by (simp add: rendered_def render_logs)
  show ?thesis
    using assms r r2
    by (simp add: run_append run_paused_ticks step_Poll_tick step_Toggle_pause step_Fetch_settled)
qed

theorem paused_ticks_dropped_witness:
  "paused ((init ''sim'')\<lparr>paused := True\<rparr>) \<and> rendered ((init ''sim'')\<lparr>paused := True\<rparr>)
   \<and> run ((init ''sim'')\<lparr>paused := True\<rparr>) [Poll_tick, Poll_tick, Poll_tick]
       = ((init ''sim'')\<lparr>paused := True\<rparr>, [])
   \<and> run ((init ''sim'')\<lparr>paused := True\<rparr>)
         [Poll_tick, Poll_tick, Poll_tick, Toggle_pause, Poll_tick, Fetch_settled (Some [event_X])]
       = ((init ''sim'')\<lparr>paused := False, logs := [event_X]\<rparr>,
          [Get_logs ''sim'' 200, Get_logs ''sim'' 200])"
proof -
  have h: "paused ((init ''sim'')\<lparr>paused := True\<rparr>)" "rendered ((init ''sim'')\<lparr>paused := True\<rparr>)"
    by (simp_all add: rendered_def render_def init_def)
  have n: "replicate 3 Poll_tick = [Poll_tick, Poll_tick, Poll_tick]"
    by (simp add: numeral_3_eq_3)
  from paused_ticks_dropped [OF h, of 3 "[event_X]"] h show ?thesis
    unfolding n by (simp add: init_def)
qed

text \<open>
  C7. A poll whose fetch fails leaves the page, and so the Event Store, as it was and sends
  nothing out, no toast either. After any number of failed polls in a row the next tick
  sends the same request again: nothing counts the failures or delays the retry.
\<close>

theorem failed_fetch_is_silent:
  assumes "rendered s"
  shows "step s (Fetch_settled None) = (s, [])
       \<and> logs (fst (step s (Fetch_settled None))) = logs s
       \<and> (\<not> paused s \<longrightarrow>
            run s (concat (replicate n [Poll_tick, Fetch_settled None]) @ [Poll_tick])
              = (s, replicate (Suc n) (Get_logs (sim_id s) 200)))"
  using assms
  by (simp add: step_Fetch_settled run_append run_failed_polls step_Poll_tick
        flip: replicate_append_same)

theorem failed_fetch_is_silent_witness:
  "rendered (init ''sim'') \<and> \<not> paused (init ''sim'')
   \<and> step (init ''sim'') (Fetch_settled None) = (init ''sim'', [])
   \<and> run (init ''sim'') [Poll_tick, Fetch_settled None, Poll_tick, Fetch_settled None, Poll_tick]
       = (init ''sim'', [Get_logs ''sim'' 200, Get_logs ''sim'' 200, Get_logs ''sim'' 200])"
proof -
  have h: "rendered (init ''sim'')"
    by (rule rendered_init)
  have p: "\<not> paused (init ''sim'')" "sim_id (init ''sim'') = ''sim''"
    by (simp_all add: init_def)
  have n: "concat (replicate 2 [Poll_tick, Fetch_settled None]) @ [Poll_tick]
             = [Poll_tick, Fetch_settled None, Poll_tick, Fetch_settled None, Poll_tick]"
      "replicate (Suc 2) (Get_logs ''sim'' 200)
             = [Get_logs ''sim'' 200, Get_logs ''sim'' 200, Get_logs ''sim'' 200]"
    by (simp_all add: numeral_2_eq_2)
  from failed_fetch_is_silent [OF h, of 2] h p n show ?thesis
    by simp
qed

subsection \<open>The decision workflow\<close>

lemma step_Submit_click:
  assumes "form s = Some m" and "selectedLog s = Some e"
  shows "snd (step s Submit_click)
           = [Post_submit \<lparr> simulation_id = sim_id s, sub_log_id = log_id e,
                            analyst_label = label m,
                            correct_label = or_default (threat_label e) ''brute_force'',
                            time_taken_sec = modal_elapsed m, sub_notes = notes_text m \<rparr>]"
  using assms by (simp add: step_def submitDecision_start_def)

lemma step_Submit_settled:
  "decisionsCount (fst (step t (Submit_settled req l (Some c)))) = decisionsCount t + 1"
  "correctCount (fst (step t (Submit_settled req l (Some c))))
     = correctCount t + (if c then 1 else 0)"
  by (simp_all add: step_def submitDecision_settle_def render_fields)

lemma step_keeps_form:
  assumes "form s = Some m" and "form (fst (step s ev)) = Some m'"
  shows "m' = (case ev of
                 Set_label v \<Rightarrow> m\<lparr>label := v\<rparr>
               | Set_action v \<Rightarrow> m\<lparr>action := v\<rparr>
               | Set_notes v \<Rightarrow> m\<lparr>notes_text := v\<rparr>
               | Modal_tick \<Rightarrow> m\<lparr>modal_elapsed := modal_elapsed m + 1\<rparr>
               | _ \<Rightarrow> m)"
  using assms
  by (cases ev) (auto simp: handler_defs form_render split: option.splits if_splits)

lemma step_opens_form:
  assumes "form s = None" and "form (fst (step s ev)) = Some m"
  shows "\<exists>e. selectedLog (fst (step s ev)) = Some e \<and> m = mount e"
  using assms
  by (cases ev) (auto simp: handler_defs form_render render_fields split: option.splits if_splits)


lemma run_stays_open_label:
  "form s = Some m \<Longrightarrow> stays_open s evs \<Longrightarrow> \<forall>v. Set_label v \<notin> set evs \<Longrightarrow>
     \<exists>m'. form (fst (run s evs)) = Some m' \<and> label m' = label m"
proof (induction evs arbitrary: s m)
  case Nil
  then show ?case by simp
next
  case (Cons ev evs)
  from Cons.prems obtain m1 where m1: "form (fst (step s ev)) = Some m1"
    by auto
  have e1: "label m1 = label m"
    using step_keeps_form [OF Cons.prems(1) m1] Cons.prems(3) by (cases ev) auto
  from Cons.prems have "stays_open (fst (step s ev)) evs" "\<forall>v. Set_label v \<notin> set evs"
    by simp_all
  from Cons.IH [OF m1 this] obtain m' where
    "form (fst (run (fst (step s ev)) evs)) = Some m'" "label m' = label m1"
    by blast
  with e1 show ?case
    by (auto split: prod.splits)
qed


text \<open>
  C8. When a submit call fails in the deciding state, the page stays exactly as it was:
  the form is still open on the same event with the same analysis, label and timer, and
  neither counter has moved; the only thing sent out is the error toast.
\<close>

theorem failed_submit_keeps_deciding:
  assumes "rendered s" and "form s = Some m" and "selectedLog s = Some e"
  shows "step s (Submit_settled req l None) = (s, [Toast Lv_error Failed_to_submit])
       \<and> showModal (fst (step s (Submit_settled req l None)))
       \<and> selectedLog (fst (step s (Submit_settled req l None))) = Some e
       \<and> analysis (fst (step s (Submit_settled req l None))) = analysis s
       \<and> form (fst (step s (Submit_settled req l None))) = Some m
       \<and> decisionsCount (fst (step s (Submit_settled req l None))) = decisionsCount s
       \<and> correctCount (fst (step s (Submit_settled req l None))) = correctCount s"
proof -
  have st: "step s (Submit_settled req l None) = (s, [Toast Lv_error Failed_to_submit])"
    using assms(1) by (simp add: step_def submitDecision_settle_def rendered_def)
  have "form (render s) = Some m"
    using assms(1,2) by (simp add: rendered_def)
  then have "showModal s"
    using assms(3) by (simp add: form_render split: if_splits)
  with st assms show ?thesis by simp
qed

theorem failed_submit_keeps_deciding_witness:
  "rendered deciding_Y \<and> form deciding_Y = Some (mount event_Y)
   \<and> selectedLog deciding_Y = Some event_Y
   \<and> step deciding_Y
        (Submit_settled \<lparr> simulation_id = ''sim'', sub_log_id = 2, analyst_label = ''ddos'',
                          correct_label = ''phishing'', time_taken_sec = 0, sub_notes = [] \<rparr>
           event_Y None)
       = (deciding_Y, [Toast Lv_error Failed_to_submit])"
proof -
  have h: "rendered deciding_Y" "form deciding_Y = Some (mount event_Y)"
      "selectedLog deciding_Y = Some event_Y"
    by (simp_all add: rendered_def render_def deciding_Y_def)
  from failed_submit_keeps_deciding [OF h] h show ?thesis
    by simp
qed

lemma or_default_cases:
  "or_default x d = (case x of None \<Rightarrow> d | Some s \<Rightarrow> if s = [] then d else s)"
  by (cases x) simp_all

text \<open>
  C4. In the deciding state a click on submit sends one decision with the label of the
  form and, as true label, the event's threat label, or \<open>brute_force\<close> when the event has
  none (or an empty one). When that call succeeds, decisions made grows by exactly 1, and
  decisions correct grows by 1 if the response says \<open>correct\<close> and stays otherwise; with
  the scoring service of the specification that is: if and only if the submitted label
  equals the true label, character for character.
\<close>

theorem submit_counts:
  assumes "form s = Some m" and "selectedLog s = Some e"
  shows "\<exists>req. snd (step s Submit_click) = [Post_submit req]
           \<and> analyst_label req = label m
           \<and> correct_label req = or_default (threat_label e) ''brute_force''
           \<and> correct_label req
               = (case threat_label e of
                    None \<Rightarrow> ''brute_force''
                  | Some t \<Rightarrow> if t = [] then ''brute_force'' else t)
           \<and> decisionsCount (fst (step t (Submit_settled req e (Some c)))) = decisionsCount t + 1
           \<and> correctCount (fst (step t (Submit_settled req e (Some c))))
               = correctCount t + (if c then 1 else 0)
           \<and> decisionsCount (fst (step t (Submit_settled req e (Some (scoring_service req)))))
               = decisionsCount t + 1
           \<and> correctCount (fst (step t (Submit_settled req e (Some (scoring_service req)))))
               = correctCount t
                 + (if label m = or_default (threat_label e) ''brute_force'' then 1 else 0)
           \<and> correctCount (fst (step t (Submit_settled req e (Some (scoring_service req)))))
               = correctCount t
                 + (if label m = (case threat_label e of
                                    None \<Rightarrow> ''brute_force''
                                  | Some t \<Rightarrow> if t = [] then ''brute_force'' else t)
                    then 1 else 0)"
  using step_Submit_click [OF assms]
  by (simp add: step_Submit_settled scoring_service_def or_default_cases)

theorem submit_counts_witness:
  "form deciding_Y = Some (mount event_Y) \<and> selectedLog deciding_Y = Some event_Y
   \<and> label (mount event_Y) = ''phishing'' \<and> threat_label event_Y = Some ''phishing''
   \<and> (\<exists>req. snd (step deciding_Y Submit_click) = [Post_submit req]
         \<and> analyst_label req = ''phishing'' \<and> correct_label req = ''phishing''
         \<and> scoring_service req
         \<and> decisionsCount
              (fst (step deciding_Y (Submit_settled req event_Y (Some (scoring_service req))))) = 1
         \<and> correctCount
              (fst (step deciding_Y (Submit_settled req event_Y (Some (scoring_service req))))) = 1)
   \<and> form deciding_U
       = Some \<lparr> label = ''brute_force'', action = ''dismiss'', notes_text = [], modal_elapsed = 3 \<rparr>
   \<and> selectedLog deciding_U = Some event_U \<and> threat_label event_U = None
   \<and> (\<exists>req. snd (step deciding_U Submit_click) = [Post_submit req]
         \<and> analyst_label req = ''brute_force'' \<and> correct_label req = ''brute_force''
         \<and> decisionsCount
              (fst (step deciding_U (Submit_settled req event_U (Some (scoring_service req))))) = 1
         \<and> correctCount
              (fst (step deciding_U (Submit_settled req event_U (Some (scoring_service req))))) = 1)"
proof -
  have h: "form deciding_Y = Some (mount event_Y)" "selectedLog deciding_Y = Some event_Y"
    by (simp_all add: deciding_Y_def)
  have v: "label (mount event_Y) = ''phishing''" "threat_label event_Y = Some ''phishing''"
      "decisionsCount deciding_Y = 0" "correctCount deciding_Y = 0"
    by (simp_all add: mount_def event_Y_def deciding_Y_def init_def)
  have hu: "form deciding_U
       = Some \<lparr> label = ''brute_force'', action = ''dismiss'', notes_text = [], modal_elapsed = 3 \<rparr>"
      "selectedLog deciding_U = Some event_U"
    by (simp_all add: deciding_U_def)
  have vu: "threat_label event_U = None" "decisionsCount deciding_U = 0" "correctCount deciding_U = 0"
    by (simp_all add: event_U_def deciding_U_def init_def)
  from submit_counts [OF h, of deciding_Y] obtain req where
    "snd (step deciding_Y Submit_click) = [Post_submit req]"
    "analyst_label req = label (mount event_Y)"
    "correct_label req = (case threat_label event_Y of
                    None \<Rightarrow> ''brute_force''
                  | Some t \<Rightarrow> if t = [] then ''brute_force'' else t)"
    "decisionsCount (fst (step deciding_Y (Submit_settled req event_Y (Some (scoring_service req)))))
       = decisionsCount deciding_Y + 1"
    "correctCount (fst (step deciding_Y (Submit_settled req event_Y (Some (scoring_service req)))))
       = correctCount deciding_Y
         + (if label (mount event_Y) = (case threat_label event_Y of
                    None \<Rightarrow> ''brute_force''
                  | Some t \<Rightarrow> if t = [] then ''brute_force'' else t)
            then 1 else 0)"
    by blast
  with h v have y: "\<exists>req. snd (step deciding_Y Submit_click) = [Post_submit req]
         \<and> analyst_label req = ''phishing'' \<and> correct_label req = ''phishing''
         \<and> scoring_service req
         \<and> decisionsCount
              (fst (step deciding_Y (Submit_settled req event_Y (Some (scoring_service req))))) = 1
         \<and> correctCount
              (fst (step deciding_Y (Submit_settled req event_Y (Some (scoring_service req))))) = 1"
    by (auto simp: scoring_service_def)
  from submit_counts [OF hu, of deciding_U] obtain req' where
    "snd (step deciding_U Submit_click) = [Post_submit req']"
    "analyst_label req' = label \<lparr> label = ''brute_force'', action = ''dismiss'', notes_text = [],
                                   modal_elapsed = 3 \<rparr>"
    "correct_label req' = (case threat_label event_U of
                    None \<Rightarrow> ''brute_force''
                  | Some t \<Rightarrow> if t = [] then ''brute_force'' else t)"
    "decisionsCount (fst (step deciding_U (Submit_settled req' event_U (Some (scoring_service req')))))
       = decisionsCount deciding_U + 1"
    "correctCount (fst (step deciding_U (Submit_settled req' event_U (Some (scoring_service req')))))
       = correctCount deciding_U
         + (if label \<lparr> label = ''brute_force'', action = ''dismiss'', notes_text = [],
                      modal_elapsed = 3 \<rparr>
               = (case threat_label event_U of
                    None \<Rightarrow> ''brute_force''
                  | Some t \<Rightarrow> if t = [] then ''brute_force'' else t)
            then 1 else 0)"
    by blast
  with hu vu have u: "\<exists>req. snd (step deciding_U Submit_click) = [Post_submit req]
         \<and> analyst_label req = ''brute_force'' \<and> correct_label req = ''brute_force''
         \<and> decisionsCount
              (fst (step deciding_U (Submit_settled req event_U (Some (scoring_service req))))) = 1
         \<and> correctCount
              (fst (step deciding_U (Submit_settled req event_U (Some (scoring_service req))))) = 1"
    by auto
  from h v(1,2) y hu vu(1) u show ?thesis
    by (intro conjI)
qed

text \<open>
  Without a selection under the open form the default is the correct label. When the
  decision form opens on a selected event \<open>e\<close>, its classification starts as the threat
  label of \<open>e\<close>, or \<open>brute_force\<close> when \<open>e\<close> has none. If the form then stays open, the
  analyst never changes the classification, and \<open>e\<close> is still the selected event at the
  click on submit, the decision sent has that value both as the analyst's label and as
  the correct label.
\<close>

theorem default_label_is_correct_label:
  assumes "form s = None"
    and "form (fst (step s ev)) = Some m"
    and "selectedLog (fst (step s ev)) = Some e"
    and "stays_open (fst (step s ev)) evs"
    and "\<forall>v. Set_label v \<notin> set evs"
    and "selectedLog (fst (run (fst (step s ev)) evs)) = Some e"
  shows "label m = or_default (threat_label e) ''brute_force''
       \<and> label m = (case threat_label e of
                      None \<Rightarrow> ''brute_force''
                    | Some t \<Rightarrow> if t = [] then ''brute_force'' else t)
       \<and> (\<exists>req. snd (step (fst (run (fst (step s ev)) evs)) Submit_click) = [Post_submit req]
             \<and> analyst_label req = or_default (threat_label e) ''brute_force''
             \<and> correct_label req = analyst_label req)"
proof -
  from step_opens_form [OF assms(1,2)] assms(3) have m: "m = mount e"
    by auto
  then have l: "label m = or_default (threat_label e) ''brute_force''"
    by (simp add: mount_def)
  from run_stays_open_label [OF assms(2,4,5)] obtain m' where
    m': "form (fst (run (fst (step s ev)) evs)) = Some m'" "label m' = label m"
    by blast
  from step_Submit_click [OF m'(1) assms(6)] l m'(2) show ?thesis
    by (simp add: or_default_cases [symmetric])
qed


lemma open_Y: "step selected_Y (Analyze_settled (Some analysis_Y)) = (deciding_Y, [])"
  by (simp add: handler_defs selected_Y_def deciding_Y_def init_def render_def)

lemma run_untouched:
  "fst (run deciding_Y untouched_run)
     = deciding_Y\<lparr>form := Some ((mount event_Y)\<lparr>action := ''escalate'', modal_elapsed := 2\<rparr>)\<rparr>"
  by (simp add: untouched_run_def handler_defs deciding_Y_def init_def render_def mount_def)

lemma stays_open_untouched: "stays_open deciding_Y untouched_run"
  by (simp add: untouched_run_def handler_defs deciding_Y_def init_def render_def mount_def)

theorem default_label_is_correct_label_witness:
  "form selected_Y = None
   \<and> form (fst (step selected_Y (Analyze_settled (Some analysis_Y)))) = Some (mount event_Y)
   \<and> selectedLog (fst (step selected_Y (Analyze_settled (Some analysis_Y)))) = Some event_Y
   \<and> stays_open (fst (step selected_Y (Analyze_settled (Some analysis_Y)))) untouched_run
   \<and> (\<forall>v. Set_label v \<notin> set untouched_run)
   \<and> selectedLog (fst (run (fst (step selected_Y (Analyze_settled (Some analysis_Y)))) untouched_run))
       = Some event_Y
   \<and> label (mount event_Y) = ''phishing''
   \<and> (\<exists>req. snd (step (fst (run deciding_Y untouched_run)) Submit_click) = [Post_submit req]
         \<and> analyst_label req = ''phishing'' \<and> correct_label req = ''phishing'')"
proof -
  have h1: "form selected_Y = None"
    by (simp add: selected_Y_def init_def)
  have h2: "form (fst (step selected_Y (Analyze_settled (Some analysis_Y)))) = Some (mount event_Y)"
    and h3: "selectedLog (fst (step selected_Y (Analyze_settled (Some analysis_Y)))) = Some event_Y"
    by (simp_all add: open_Y deciding_Y_def)
  have h4: "stays_open (fst (step selected_Y (Analyze_settled (Some analysis_Y)))) untouched_run"
    by (simp add: open_Y stays_open_untouched)
  have h5: "\<forall>v. Set_label v \<notin> set untouched_run"
    by (simp add: untouched_run_def)
  have h6: "selectedLog (fst (run (fst (step selected_Y (Analyze_settled (Some analysis_Y))))
              untouched_run)) = Some event_Y"
    by (simp add: open_Y run_untouched) (simp add: deciding_Y_def)
  have v: "or_default (threat_label event_Y) ''brute_force'' = ''phishing''"
    by (simp add: event_Y_def)
  from default_label_is_correct_label [OF h1 h2 h3 h4 h5 h6] h1 h2 h3 h4 h5 h6 show ?thesis
    by (auto simp: v open_Y)
qed

text \<open>
  C10, evaluated on the code. The form opens on \<open>event_Y\<close> with the classification
  \<open>phishing\<close>; \<open>event_X\<close> is then selected under the open form. The form stays mounted and
  keeps its classification, now shown for \<open>event_X\<close>, and the click on submit sends the
  untouched \<open>phishing\<close> against the correct label \<open>brute_force\<close>. The same happens towards
  and from \<open>event_U\<close>, which has no label and counts as \<open>brute_force\<close>. Without the second
  selection the label sent is the correct label, for \<open>event_Y\<close> and for \<open>event_U\<close>.
\<close>

theorem default_label_not_correct_label:
  "sent_labels (snd (run (init ''sim'') reselect_trace)) = [(''phishing'', ''brute_force'')]
   \<and> reselect_trace
       = [Select event_Y, Analyze_settled (Some analysis_Y), Select event_X, Submit_click]
   \<and> selectedLog (fst (run (init ''sim'')
                         [Select event_Y, Analyze_settled (Some analysis_Y), Select event_X]))
       = Some event_X
   \<and> form (fst (run (init ''sim'')
                   [Select event_Y, Analyze_settled (Some analysis_Y), Select event_X]))
       = Some \<lparr> label = ''phishing'', action = ''investigate'', notes_text = [],
                 modal_elapsed = 0 \<rparr>
   \<and> threat_label event_X = Some ''brute_force'' \<and> threat_label event_Y = Some ''phishing''
   \<and> threat_label event_U = None
   \<and> sent_labels (snd (run (init ''sim'')
         [Select event_Y, Analyze_settled (Some analysis_Y), Select event_U, Submit_click]))
       = [(''phishing'', ''brute_force'')]
   \<and> sent_labels (snd (run (init ''sim'')
         [Select event_U, Analyze_settled (Some analysis_X), Select event_Y, Submit_click]))
       = [(''brute_force'', ''phishing'')]
   \<and> sent_labels (snd (run (init ''sim'')
         [Select event_U, Analyze_settled (Some analysis_X), Submit_click]))
       = [(''brute_force'', ''brute_force'')]
   \<and> sent_labels (snd (run (init ''sim'')
         [Select event_Y, Analyze_settled (Some analysis_Y), Submit_click]))
       = [(''phishing'', ''phishing'')]"
  by (simp add: reselect_trace_def sent_labels_def handler_defs init_def render_def mount_def
        event_X_def event_Y_def event_U_def)

text \<open>
  C1, evaluated on the code. \<open>event_X\<close> is selected, then \<open>event_Y\<close> before the analyze call
  of \<open>event_X\<close> has settled, then that call resolves with \<open>analysis_X\<close>. The second part of
  \<open>analyzeLog\<close> stores the result and opens the form whatever is selected by then: the
  page ends with \<open>event_Y\<close> selected, the analysis of \<open>event_X\<close> attached and the decision
  form open on \<open>event_Y\<close>.
\<close>

theorem stale_analysis_attached:
  "fst (run (init ''sim'') [Select event_X, Select event_Y, Analyze_settled (Some analysis_X)])
     = (init ''sim'')\<lparr> selectedLog := Some event_Y, analysis := Some analysis_X,
                       showModal := True, form := Some (mount event_Y) \<rparr>
   \<and> event_X \<noteq> event_Y"
  by (simp add: handler_defs init_def render_def event_X_def event_Y_def)





subsection \<open>Threat distribution\<close>

lemma foldl_tally:
  "foldl tally acc ls = foldl bump acc (filter (\<lambda>t. t \<noteq> ''__proto__'') (counted ls))"
  by (induction ls arbitrary: acc) (simp_all add: counted_def tally_def split: option.splits)

lemma first_seen_set: "set (first_seen xs) = set xs"
  by (induction xs) auto

lemma first_seen_distinct: "distinct (first_seen xs)"
  by (induction xs) (auto simp: first_seen_set)

lemma first_seen_snoc:
  "first_seen (xs @ [x]) = (if x \<in> set xs then first_seen xs else first_seen xs @ [x])"
  by (induction xs) auto

lemma bump_map_in:
  "x \<in> set ks \<Longrightarrow> distinct ks \<Longrightarrow>
     bump (map (\<lambda>k. (k, f k)) ks) x = map (\<lambda>k. (k, if k = x then f k + 1 else f k)) ks"
  by (induction ks) auto

lemma bump_map_notin:
  "x \<notin> set ks \<Longrightarrow> bump (map (\<lambda>k. (k, f k)) ks) x = map (\<lambda>k. (k, f k)) ks @ [(x, 1)]"
  by (induction ks) auto

lemma count_list_snoc: "count_list (xs @ [x]) k = count_list xs k + (if x = k then 1 else 0)"
  by (induction xs) auto

lemma group_count_snoc: "group_count (xs @ [x]) = bump (group_count xs) x"
proof (cases "x \<in> set xs")
  case True
  then have "x \<in> set (first_seen xs)" by (simp add: first_seen_set)
  from bump_map_in [OF this first_seen_distinct, of "count_list xs"] True show ?thesis
    by (auto simp: group_count_def first_seen_snoc count_list_snoc)
next
  case False
  then have n: "x \<notin> set (first_seen xs)" by (simp add: first_seen_set)
  have "count_list xs x = 0" using False by (simp add: count_list_0_iff)
  with bump_map_notin [OF n, of "count_list xs"] False n show ?thesis
    by (auto simp: group_count_def first_seen_snoc count_list_snoc)
qed

lemma foldl_bump: "foldl bump [] xs = group_count xs"
proof (induction xs rule: rev_induct)
  case Nil
  show ?case by (simp add: group_count_def)
next
  case (snoc x xs)
  then show ?case by (simp add: group_count_snoc)
qed

lemma insort_key_map:
  "insort_key g (f x) (map f ys) = map f (insort_key (\<lambda>y. g (f y)) x ys)"
  by (induction ys) simp_all

lemma sort_key_map: "sort_key g (map f xs) = map f (sort_key (\<lambda>y. g (f y)) xs)"
  by (induction xs) (simp_all add: insort_key_map)

lemma Object_entries_set: "set (Object_entries obj) = set obj"
  by (auto simp: Object_entries_def)

lemma Object_entries_plain:
  "\<forall>p \<in> set obj. \<not> is_array_index (fst p) \<Longrightarrow> Object_entries obj = obj"
  by (simp add: Object_entries_def filter_empty_conv [THEN iffD2] cong: filter_cong)

lemma group_count_mem: "(k, c) \<in> set (group_count xs) \<Longrightarrow> k \<in> set xs \<and> c = count_list xs k"
  by (auto simp: group_count_def first_seen_set)

lemma display_name_benign: "display_name k = ''benign'' \<Longrightarrow> k = ''benign''"
  by (auto simp: display_name_def map_eq_Cons_conv split: if_splits)

lemma counted_mem:
  "t \<in> set (counted ls) \<Longrightarrow> t \<noteq> [] \<and> t \<noteq> ''benign'' \<and> (\<exists>l \<in> set ls. threat_label l = Some t)"
  by (auto simp: counted_def split: option.splits if_splits)


lemma count_entry: "count (entry p) = snd p" "name (entry p) = display_name (fst p)"
  by (simp_all add: entry_def)

text \<open>
  C5, as the code has it. For a snapshot whose counted labels name no inherited member of
  the accumulator, the threat distribution is: the labels that are present and not
  \<open>benign\<close>, grouped and counted, in the key order of the accumulator (array-index
  labels first in ascending numeric order, then the others in first-seen order), sorted by
  descending count with a stable sort, the first six, each shown under its display name.
  When no label is an array index this is the distribution of the specification. It has
  at most 6 bars, in descending order of count; each bar is that of a counted label with
  the number of events that carry it, and none is named \<open>benign\<close>.
\<close>

theorem threatDist_key_order:
  assumes "set (counted ls) \<inter> set inherited_names = {}"
  shows "\<exists>d. threatDist ls = Some d
           \<and> d = map entry (take 6 (sort_key (\<lambda>p. - int (snd p))
                                      (Object_entries (group_count (counted ls)))))
           \<and> ((\<forall>t \<in> set (counted ls). \<not> is_array_index t) \<longrightarrow>
                 d = map entry (threatDistribution ls))
           \<and> length d \<le> 6
           \<and> sorted_wrt (\<lambda>a b. count b \<le> count a) d
           \<and> (\<forall>e \<in> set d. name e \<noteq> ''benign''
                 \<and> (\<exists>t \<in> set (counted ls). name e = display_name t
                        \<and> count e = count_list (counted ls) t))
           \<and> (\<forall>t \<in> set (counted ls). t \<noteq> [] \<and> t \<noteq> ''benign''
                 \<and> (\<exists>l \<in> set ls. threat_label l = Some t))"
proof -
  define ps where
    "ps = take 6 (sort_key (\<lambda>p. - int (snd p)) (Object_entries (group_count (counted ls))))"
  have np: "''__proto__'' \<notin> set (counted ls)"
    using assms by (auto simp: inherited_names_def)
  have nm: "\<not> list_ex (\<lambda>t. t \<in> set Object_prototype_methods) (counted ls)"
    using assms by (auto simp: inherited_names_def list_ex_iff)
  have "filter (\<lambda>t. t \<noteq> ''__proto__'') (counted ls) = counted ls"
    using np by (simp add: filter_id_conv) metis
  then have acc: "foldl tally [] ls = group_count (counted ls)"
    by (simp add: foldl_tally foldl_bump)
  have td: "threatDist ls = Some (map entry ps)"
    unfolding threatDist_def ps_def using nm
    by (simp add: acc sort_key_map take_map count_entry)
  have plain: "ps = threatDistribution ls" if "\<forall>t \<in> set (counted ls). \<not> is_array_index t"
  proof -
    have "\<forall>p \<in> set (group_count (counted ls)). \<not> is_array_index (fst p)"
      using that group_count_mem by fastforce
    then show ?thesis
      by (simp add: ps_def threatDistribution_def Object_entries_plain)
  qed
  have len: "length (map entry ps) \<le> 6"
    by (simp add: ps_def)
  have "sorted (map (\<lambda>p. - int (snd p))
          (sort_key (\<lambda>p. - int (snd p)) (Object_entries (group_count (counted ls)))))"
    by (rule sorted_sort_key)
  then have "sorted_wrt (\<lambda>a b. snd b \<le> snd a)
          (sort_key (\<lambda>p. - int (snd p)) (Object_entries (group_count (counted ls))))"
    by (simp add: sorted_map)
  then have "sorted_wrt (\<lambda>a b. snd b \<le> snd a) ps"
    unfolding ps_def by (rule sorted_wrt_take)
  then have srt: "sorted_wrt (\<lambda>a b. count b \<le> count a) (map entry ps)"
    by (simp add: sorted_wrt_map count_entry)
  have sub: "set ps \<subseteq> set (group_count (counted ls))"
    unfolding ps_def using set_take_subset [of 6] by (fastforce simp: Object_entries_set)
  have mem: "name e \<noteq> ''benign''
      \<and> (\<exists>t \<in> set (counted ls). name e = display_name t \<and> count e = count_list (counted ls) t)"
    if "e \<in> set (map entry ps)" for e
  proof -
    from that obtain k c where kc: "(k, c) \<in> set ps" "e = entry (k, c)"
      by auto
    with sub have "(k, c) \<in> set (group_count (counted ls))" by blast
    from group_count_mem [OF this] have k: "k \<in> set (counted ls)" "c = count_list (counted ls) k"
      by simp_all
    from counted_mem [OF k(1)] have "k \<noteq> ''benign''" by simp
    then have "name e \<noteq> ''benign''"
      using display_name_benign [of k] kc(2) by (auto simp: count_entry)
    with k kc(2) show ?thesis
      by (auto simp: count_entry)
  qed
  have lab: "t \<noteq> [] \<and> t \<noteq> ''benign'' \<and> (\<exists>l \<in> set ls. threat_label l = Some t)"
    if "t \<in> set (counted ls)" for t
    using counted_mem [OF that] .
  show ?thesis
  proof (intro exI [of _ "map entry ps"] conjI)
    show "threatDist ls = Some (map entry ps)"
      by (rule td)
    show "map entry ps = map entry (take 6 (sort_key (\<lambda>p. - int (snd p))
                                      (Object_entries (group_count (counted ls)))))"
      by (simp add: ps_def)
    show "(\<forall>t \<in> set (counted ls). \<not> is_array_index t) \<longrightarrow>
            map entry ps = map entry (threatDistribution ls)"
      using plain by simp
    show "length (map entry ps) \<le> 6"
      by (rule len)
    show "sorted_wrt (\<lambda>a b. count b \<le> count a) (map entry ps)"
      by (rule srt)
    show "\<forall>e \<in> set (map entry ps). name e \<noteq> ''benign''
            \<and> (\<exists>t \<in> set (counted ls). name e = display_name t
                   \<and> count e = count_list (counted ls) t)"
      using mem by blast
    show "\<forall>t \<in> set (counted ls). t \<noteq> [] \<and> t \<noteq> ''benign''
            \<and> (\<exists>l \<in> set ls. threat_label l = Some t)"
      using lab by blast
  qed
qed

lemma counted_mixed: "counted mixed_store = [''ddos'', ''brute_force'', ''brute_force'']"
  by (simp add: counted_def mixed_store_def labelled_def)

theorem threatDist_key_order_witness:
  "set (counted mixed_store) \<inter> set inherited_names = {}
   \<and> \<not> list_ex is_array_index (counted mixed_store)
   \<and> threatDistribution mixed_store = [(''brute_force'', 2), (''ddos'', 1)]
   \<and> threatDist mixed_store
       = Some [\<lparr>name = ''brute force'', count = 2, color = ''#f97316''\<rparr>,
               \<lparr>name = ''ddos'', count = 1, color = ''#ef4444''\<rparr>]"
proof -
  have h: "set (counted mixed_store) \<inter> set inherited_names = {}"
    by (simp add: counted_mixed inherited_names_def Object_prototype_methods_def)
  have a: "\<not> list_ex is_array_index (counted mixed_store)"
    by (simp add: counted_mixed is_array_index_def)
  have s: "threatDistribution mixed_store = [(''brute_force'', 2), (''ddos'', 1)]"
    by (simp add: threatDistribution_def counted_mixed group_count_def)
  have e: "map entry [(''brute_force'', 2), (''ddos'', 1)]
             = [\<lparr>name = ''brute force'', count = 2, color = ''#f97316''\<rparr>,
                \<lparr>name = ''ddos'', count = 1, color = ''#ef4444''\<rparr>]"
    by (simp add: entry_def display_name_def THREAT_COLORS_def)
  from threatDist_key_order [OF h] a h s e show ?thesis
    by (auto simp: list_ex_iff)
qed

text \<open>
  C5 as stated fails. In \<open>numeric_store\<close> the label \<open>ddos\<close> is seen first and \<open>7\<close> second,
  each once; the bar of \<open>7\<close> comes first.
\<close>

theorem ties_not_first_seen:
  "threatDist numeric_store = Some (map entry [(''7'', 1), (''ddos'', 1)])
   \<and> threatDistribution numeric_store = [(''ddos'', 1), (''7'', 1)]
   \<and> threatDist numeric_store \<noteq> Some (map entry (threatDistribution numeric_store))"
proof -
  have c: "counted numeric_store = [''ddos'', ''7'']"
    by (simp add: counted_def numeric_store_def labelled_def)
  have t: "foldl tally [] numeric_store = [(''ddos'', 1), (''7'', 1)]"
    by (simp add: tally_def numeric_store_def labelled_def)
  have i: "is_array_index ''7''" "\<not> is_array_index ''ddos''"
    by (simp_all add: is_array_index_def decimal_def)
  have a: "threatDist numeric_store = Some (map entry [(''7'', 1), (''ddos'', 1)])"
    by (simp add: threatDist_def c t Object_entries_def i Object_prototype_methods_def entry_def)
  have b: "threatDistribution numeric_store = [(''ddos'', 1), (''7'', 1)]"
    by (simp add: threatDistribution_def c group_count_def)
  have "map entry [(''7'', 1), (''ddos'', 1)] \<noteq> map entry [(''ddos'', 1), (''7'', 1)]"
    by (simp add: entry_def display_name_def)
  with a b show ?thesis by simp
qed



subsection \<open>Accuracy\<close>

text \<open>No more decisions are counted correct than are counted made.\<close>

lemma correct_le_made_step:
  "correctCount s \<le> decisionsCount s \<Longrightarrow>
     correctCount (fst (step s ev)) \<le> decisionsCount (fst (step s ev))"
  by (cases ev) (auto simp: handler_defs render_fields split: option.splits)

lemma correct_le_made_run:
  "correctCount s \<le> decisionsCount s \<Longrightarrow>
     correctCount (fst (run s evs)) \<le> decisionsCount (fst (run s evs))"
proof (induction evs arbitrary: s)
  case Nil
  then show ?case by simp
next
  case (Cons ev evs)
  have "correctCount (fst (run (fst (step s ev)) evs))
          \<le> decisionsCount (fst (run (fst (step s ev)) evs))"
    by (rule Cons.IH) (rule correct_le_made_step [OF Cons.prems])
  then show ?case
    by (auto split: prod.splits)
qed

lemma correct_le_made:
  "correctCount (fst (run (init i) evs)) \<le> decisionsCount (fst (run (init i) evs))"
  by (rule correct_le_made_run) (simp add: init_def)

lemma round_even_error: "\<bar>of_int (round_even y) - y\<bar> \<le> 1 / 2"
proof -
  have "of_int \<lfloor>y\<rfloor> \<le> y" "y < of_int \<lfloor>y\<rfloor> + 1"
    by linarith+
  then show ?thesis
    by (auto simp: round_even_def Let_def)
qed

lemma exponent2_le:
  assumes "0 < x"
  shows "2 powi exponent2 x \<le> x"
proof -
  obtain a b where q: "quotient_of x = (a, b)"
    by (cases "quotient_of x")
  then have b: "0 < b" and x: "x = of_int a / of_int b"
    by (simp_all add: quotient_of_denom_pos quotient_of_div)
  from assms b x have a: "0 < a"
    by (simp add: zero_less_divide_iff)
  define la lb where "la = nat (bitlen a - 1)" and "lb = nat (bitlen b)"
  from bitlen_bounds [OF a] have la: "2 ^ la \<le> a"
    by (simp add: la_def)
  from bitlen_bounds [OF b] have lb: "b < 2 ^ lb"
    by (simp add: lb_def)
  have pos: "0 < bitlen n" if "0 < n" for n
  proof (rule ccontr)
    assume "\<not> 0 < bitlen n"
    then have "nat (bitlen n) = 0" by simp
    with bitlen_bounds [OF that] that show False by simp
  qed
  from a b have pa: "0 < bitlen a" and pb: "0 < bitlen b"
    by (simp_all add: pos)
  have k: "bitlen a - bitlen b - 1 = int la - int lb"
    using pa pb by (simp add: la_def lb_def)
  have "(2::rat) powi (int la - int lb) = 2 ^ la / 2 ^ lb"
    by (simp add: power_int_diff)
  also have "\<dots> \<le> of_int a / 2 ^ lb"
  proof -
    have "(2::rat) ^ la \<le> of_int a"
      using la by (metis of_int_le_iff of_int_numeral of_int_power)
    then show ?thesis
      by (simp add: divide_right_mono)
  qed
  also have "\<dots> \<le> of_int a / of_int b"
  proof -
    have "(of_int b :: rat) \<le> 2 ^ lb"
      using lb by (metis less_imp_le of_int_le_iff of_int_numeral of_int_power)
    then show ?thesis
      using a b by (simp add: frac_le)
  qed
  finally have low: "2 powi (bitlen a - bitlen b - 1) \<le> x"
    by (simp add: k x)
  show ?thesis
    using low by (simp add: exponent2_def q Let_def)
qed

lemma double_error:
  assumes "0 < x"
  shows "\<bar>double x - x\<bar> \<le> x / 2 ^ 53"
proof -
  define e where "e = exponent2 x - 52"
  define p :: rat where "p = 2 powi e"
  define m where "m = round_even (x / p)"
  have p: "0 < p"
    by (simp add: p_def zero_less_power_int)
  have d: "double x = of_int m * p"
    using assms by (simp add: double_def Let_def e_def p_def m_def)
  have "p = 2 powi exponent2 x / 2 ^ 52"
    by (simp add: p_def e_def power_int_diff)
  with exponent2_le [OF assms] have px: "p \<le> x / 2 ^ 52"
    by (simp add: divide_right_mono)
  have "of_int m * p - x = (of_int m - x / p) * p"
    using p by (simp add: left_diff_distrib)
  then have "\<bar>of_int m * p - x\<bar> = \<bar>of_int m - x / p\<bar> * p"
    using p by (simp add: abs_mult)
  also have "\<dots> \<le> 1 / 2 * p"
    using round_even_error [of "x / p"] p by (simp add: m_def mult_right_mono)
  also have "\<dots> \<le> x / 2 ^ 53"
    using px by simp
  finally show ?thesis
    by (simp add: d)
qed


text \<open>With \<open>exponent2_le\<close>: \<open>exponent2 x\<close> is the binary exponent of \<open>x\<close>.\<close>

lemma exponent2_less:
  assumes "0 < x"
  shows "x < 2 powi (exponent2 x + 1)"
proof -
  obtain a b where q: "quotient_of x = (a, b)"
    by (cases "quotient_of x")
  then have b: "0 < b" and x: "x = of_int a / of_int b"
    by (simp_all add: quotient_of_denom_pos quotient_of_div)
  from assms b x have a: "0 < a"
    by (simp add: zero_less_divide_iff)
  define la lb where "la = nat (bitlen a)" and "lb = nat (bitlen b - 1)"
  from bitlen_bounds [OF a] have la: "a < 2 ^ la"
    by (simp add: la_def)
  from bitlen_bounds [OF b] have lb: "2 ^ lb \<le> b"
    by (simp add: lb_def)
  have pos: "0 < bitlen n" if "0 < n" for n
  proof (rule ccontr)
    assume "\<not> 0 < bitlen n"
    then have "nat (bitlen n) = 0" by simp
    with bitlen_bounds [OF that] that show False by simp
  qed
  from a b have pa: "0 < bitlen a" and pb: "0 < bitlen b"
    by (simp_all add: pos)
  have k: "bitlen a - bitlen b + 1 = int la - int lb"
    using pa pb by (simp add: la_def lb_def)
  have "of_int a / of_int b \<le> of_int a / (2 ^ lb :: rat)"
  proof -
    have "(2::rat) ^ lb \<le> of_int b"
      using lb by (metis of_int_le_iff of_int_numeral of_int_power)
    then show ?thesis
      using a by (simp add: frac_le)
  qed
  also have "\<dots> < 2 ^ la / 2 ^ lb"
  proof -
    have "(of_int a :: rat) < 2 ^ la"
      using la by (metis of_int_less_iff of_int_numeral of_int_power)
    then show ?thesis
      by (simp add: divide_strict_right_mono)
  qed
  also have "\<dots> = (2::rat) powi (int la - int lb)"
    by (simp add: power_int_diff)
  finally have up: "x < 2 powi (bitlen a - bitlen b + 1)"
    by (simp add: k x)
  show ?thesis
    using up by (auto simp: exponent2_def q Let_def not_le)
qed

lemma double_pos:
  assumes "0 < x"
  shows "0 < double x"
proof -
  have "x / 2 ^ 53 < x"
    using assms by simp
  with double_error [OF assms] show ?thesis
    by linarith
qed

lemma toFixed0_error:
  assumes "0 \<le> z"
  shows "of_int (toFixed0 z) \<le> z + 1 / 2" "z - 1 / 2 < of_int (toFixed0 z)"
  using assms by (simp_all add: toFixed0_def) linarith+

lemma percent_error:
  assumes "0 < c" and "c \<le> d"
  shows "\<bar>double (double (of_nat c / of_nat d) * 100) - of_nat c / of_nat d * 100\<bar>
           \<le> 300 / 2 ^ 53"
    and "0 < double (double (of_nat c / of_nat d) * 100)"
proof -
  define x :: rat where "x = of_nat c / of_nat d"
  define y where "y = double x"
  define z where "z = double (y * 100)"
  have x: "0 < x" "x \<le> 1"
    using assms by (simp_all add: x_def)
  have y: "\<bar>y - x\<bar> \<le> x / 2 ^ 53" "0 < y"
    using double_error [OF x(1)] double_pos [OF x(1)] by (simp_all add: y_def)
  then have w: "0 < y * 100"
    by simp
  have z: "\<bar>z - y * 100\<bar> \<le> y * 100 / 2 ^ 53" "0 < z"
    using double_error [OF w] double_pos [OF w] by (simp_all add: z_def)
  have e1: "x / 2 ^ 53 \<le> x"
    using x(1) by simp
  from y(1) e1 have y2: "y \<le> 2 * x"
    by linarith
  have "y * 100 / 2 ^ 53 \<le> 200 * x / 2 ^ 53"
    using y2 by (simp add: divide_right_mono)
  with z(1) have e2: "\<bar>z - y * 100\<bar> \<le> 200 * x / 2 ^ 53"
    by linarith
  from y(1) have e3: "\<bar>y * 100 - x * 100\<bar> \<le> 100 * x / 2 ^ 53"
    by linarith
  from e2 e3 have "\<bar>z - x * 100\<bar> \<le> 300 * x / 2 ^ 53"
    by linarith
  moreover have "300 * x / 2 ^ 53 \<le> 300 / 2 ^ 53"
    using x(2) by (simp add: divide_right_mono)
  ultimately have "\<bar>z - x * 100\<bar> \<le> 300 / 2 ^ 53"
    by linarith
  then show "\<bar>double (double (of_nat c / of_nat d) * 100) - of_nat c / of_nat d * 100\<bar>
           \<le> 300 / 2 ^ 53"
    by (simp add: z_def y_def x_def)
  show "0 < double (double (of_nat c / of_nat d) * 100)"
    using z(2) by (simp add: z_def y_def x_def)
qed

text \<open>
  C9, as the code has it. With no decision made the accuracy is the dash. With decisions
  made, and no more correct ones than made, it is a whole number from 0 to 100: the
  percentage \<open>correct / made * 100\<close> as computed in doubles and rounded by \<open>toFixed(0)\<close>.
  It differs from the exact percentage by at most \<open>1/2 + 2^-44\<close>, and it is the exact
  percentage whenever that is a whole number.
\<close>

theorem accuracy_rounded:
  "(d = 0 \<longrightarrow> accuracy c d = Dash)
   \<and> (0 < d \<and> c \<le> d \<longrightarrow>
        (\<exists>n. accuracy c d = Fixed n \<and> 0 \<le> n \<and> n \<le> 100
           \<and> \<bar>of_int n - of_nat c / of_nat d * 100\<bar> \<le> (1 / 2 + 1 / 2 ^ 44 :: rat)
           \<and> (d dvd 100 * c \<longrightarrow> n = int (100 * c div d))))"
proof (intro conjI impI)
  show "accuracy c d = Dash" if "d = 0"
    using that by (simp add: accuracy_def)
next
  assume h: "0 < d \<and> c \<le> d"
  define q :: rat where "q = of_nat c / of_nat d * 100"
  define z where "z = double (double (of_nat c / of_nat d) * 100)"
  define n where "n = toFixed0 z"
  have acc: "accuracy c d = Fixed n"
    using h by (simp add: accuracy_def n_def z_def)
  define r :: rat where "r = of_nat c / of_nat d"
  have r: "0 \<le> r" "r \<le> 1"
    using h by (simp_all add: r_def)
  have "q = r * 100"
    by (simp add: q_def r_def)
  with r have q: "0 \<le> q" "q \<le> 100"
    by linarith+
  have zq: "\<bar>z - q\<bar> \<le> 300 / 2 ^ 53" and z0: "0 \<le> z"
  proof -
    show "\<bar>z - q\<bar> \<le> 300 / 2 ^ 53"
    proof (cases "c = 0")
      case True
      then show ?thesis by (simp add: z_def q_def double_def)
    next
      case False
      with h percent_error(1) [of c d] show ?thesis
        by (simp add: z_def q_def)
    qed
    show "0 \<le> z"
    proof (cases "c = 0")
      case True
      then show ?thesis by (simp add: z_def double_def)
    next
      case False
      with h percent_error(2) [of c d] show ?thesis
        by (simp add: z_def)
    qed
  qed
  have nz: "of_int n \<le> z + 1 / 2" "z - 1 / 2 < of_int n"
    using toFixed0_error [OF z0] by (simp_all add: n_def)
  have small: "(300 :: rat) / 2 ^ 53 \<le> 1 / 2 ^ 44" "(1 :: rat) / 2 ^ 44 < 1 / 2"
    by simp_all
  have b1: "\<bar>of_int n - q\<bar> \<le> 1 / 2 + 1 / 2 ^ 44"
    using nz zq small by linarith
  have "(- 1 :: rat) < of_int n" "(of_int n :: rat) < 101"
    using nz zq q small by linarith+
  then have b2: "0 \<le> n" "n \<le> 100"
    by linarith+
  have b3: "n = int (100 * c div d)" if "d dvd 100 * c"
  proof -
    from that obtain k where k: "100 * c = d * k" ..
    then have kd: "100 * c div d = k"
      using h by simp
    have "q = of_nat (100 * c) / of_nat d"
      by (simp add: q_def)
    also have "\<dots> = of_nat k"
      using h by (simp add: k)
    finally have "q = of_int (int k)"
      by simp
    with nz zq small
    have "(of_int (int k) :: rat) - 1 < of_int n" "(of_int n :: rat) < of_int (int k) + 1"
      by linarith+
    then have "n = int k"
      by linarith
    with kd show ?thesis by simp
  qed
  show "\<exists>n. accuracy c d = Fixed n \<and> 0 \<le> n \<and> n \<le> 100
           \<and> \<bar>of_int n - of_nat c / of_nat d * 100\<bar> \<le> (1 / 2 + 1 / 2 ^ 44 :: rat)
           \<and> (d dvd 100 * c \<longrightarrow> n = int (100 * c div d))"
  proof (intro exI [of _ n] conjI impI)
    show "accuracy c d = Fixed n" by (rule acc)
    show "0 \<le> n" "n \<le> 100" by (rule b2)+
    show "\<bar>of_int n - of_nat c / of_nat d * 100\<bar> \<le> (1 / 2 + 1 / 2 ^ 44 :: rat)"
      using b1 unfolding q_def .
    show "n = int (100 * c div d)" if "d dvd 100 * c"
      using that by (rule b3)
  qed
qed

theorem accuracy_rounded_witness:
  "(0::nat) < 4 \<and> (1::nat) \<le> 4 \<and> (4::nat) dvd 100 * 1
   \<and> accuracy 1 4 = Fixed 25 \<and> accuracy 1 0 = Dash"
proof -
  have h: "(0::nat) < 4 \<and> (1::nat) \<le> 4" "(4::nat) dvd 100 * 1" "(0::nat) = 0"
    by simp_all
  from accuracy_rounded [of 4 1] h(1,2) obtain n where
    "accuracy 1 4 = Fixed n" "n = int (100 * 1 div 4)"
    by blast
  then have "accuracy 1 4 = Fixed 25"
    by simp
  moreover from accuracy_rounded [of 0 1] have "accuracy 1 0 = Dash"
    by blast
  ultimately show ?thesis
    using h by blast
qed

text \<open>
  The rounding gives the values every engine prints: \<open>0.1\<close> is \<open>3602879701896397 / 2^55\<close>,
  \<open>0.57 * 100\<close> is below 57 and \<open>1.005 * 100\<close> is below 100.5. With 29 correct decisions
  of 200 the product is below 14.5 and the accuracy is 14.
\<close>

lemma double_one_tenth: "double (1 / 10) = 3602879701896397 / 2 ^ 55"
  by code_simp

lemma double_products:
  "double (double (57 / 100) * 100) < 57"
  "double (double (201 / 200) * 100) < 201 / 2"
  "double (double (29 / 200) * 100) < 29 / 2"
  by code_simp+

lemma accuracy_29_200: "accuracy 29 200 = Fixed 14"
  by code_simp

lemma accuracy_1_3: "accuracy 1 3 = Fixed 33"
  by code_simp

text \<open>
  C9 as stated fails. With 1 correct decision of 3 the accuracy is 33, and the percentage
  is 100/3.
\<close>

theorem accuracy_not_exact:
  "accuracy 1 3 = Fixed 33 \<and> (of_int 33 :: rat) \<noteq> of_nat 1 / of_nat 3 * 100"
proof
  show "accuracy 1 3 = Fixed 33"
    by (rule accuracy_1_3)
  show "(of_int 33 :: rat) \<noteq> of_nat 1 / of_nat 3 * 100"
    by simp
qed


end
